theory Spec2Isabelle
  imports Complex_Main
begin

section \<open>Python strings\<close>

text \<open>
  A Python \<open>str\<close> is modelled as a \<open>string\<close>, a list of characters, each standing for
  the code point of the same number. The character classes below are the ones Python's
  \<open>str\<close> methods and the \<open>re\<close> module use on ASCII text; a character outside ASCII is
  taken to be neither a digit, a letter, a word character nor white space (Python would
  consult its Unicode tables there).
\<close>

definition is_digit :: "char \<Rightarrow> bool" where
  "is_digit c = (c \<in> set ''0123456789'')"

definition is_upper :: "char \<Rightarrow> bool" where
  "is_upper c = (c \<in> set ''ABCDEFGHIJKLMNOPQRSTUVWXYZ'')"

definition is_lower :: "char \<Rightarrow> bool" where
  "is_lower c = (c \<in> set ''abcdefghijklmnopqrstuvwxyz'')"

definition is_alpha :: "char \<Rightarrow> bool" where
  "is_alpha c = (is_upper c \<or> is_lower c)"

text \<open>\<open>\w\<close>: letters, digits and the underscore.\<close>

definition is_word :: "char \<Rightarrow> bool" where
  "is_word c = (is_alpha c \<or> is_digit c \<or> c = CHR ''_'')"

text \<open>
  \<open>\s\<close> and \<open>str.isspace\<close>: space, tab, line feed, vertical tab, form feed, carriage
  return and the four separators 0x1C to 0x1F.
\<close>

definition is_space :: "char \<Rightarrow> bool" where
  "is_space c = (c \<in> set [CHR '' '', CHR 0x09, CHR 0x0A, CHR 0x0B, CHR 0x0C, CHR 0x0D,
                            CHR 0x1C, CHR 0x1D, CHR 0x1E, CHR 0x1F])"

definition to_upper :: "char \<Rightarrow> char" where
  "to_upper c =
     (case map_of (zip ''abcdefghijklmnopqrstuvwxyz'' ''ABCDEFGHIJKLMNOPQRSTUVWXYZ'') c of
        None \<Rightarrow> c | Some d \<Rightarrow> d)"

definition to_lower :: "char \<Rightarrow> char" where
  "to_lower c =
     (case map_of (zip ''ABCDEFGHIJKLMNOPQRSTUVWXYZ'' ''abcdefghijklmnopqrstuvwxyz'') c of
        None \<Rightarrow> c | Some d \<Rightarrow> d)"

text \<open>\<open>s.lower()\<close>\<close>

definition py_lower :: "string \<Rightarrow> string" where
  "py_lower s = map to_lower s"

text \<open>
  \<open>s.title()\<close>: a letter that follows a letter is lower-cased, any other letter is
  upper-cased, every other character is kept. The flag says whether the previous
  character was a letter.
\<close>

fun title_from :: "bool \<Rightarrow> string \<Rightarrow> string" where
  "title_from prev [] = []"
| "title_from prev (c # cs) =
     (if is_alpha c then (if prev then to_lower c else to_upper c) # title_from True cs
      else c # title_from False cs)"

definition py_title :: "string \<Rightarrow> string" where
  "py_title s = title_from False s"

text \<open>\<open>s.strip()\<close>\<close>

definition py_strip :: "string \<Rightarrow> string" where
  "py_strip s = rev (dropWhile is_space (rev (dropWhile is_space s)))"

text \<open>\<open>s.startswith(p)\<close> and \<open>s.endswith(p)\<close>\<close>

definition startswith :: "string \<Rightarrow> string \<Rightarrow> bool" where
  "startswith s p = (take (length p) s = p)"

definition endswith :: "string \<Rightarrow> string \<Rightarrow> bool" where
  "endswith s p = (length p \<le> length s \<and> drop (length s - length p) s = p)"

text \<open>\<open>s.split(sep)\<close> for a separator of one character.\<close>

fun py_split :: "char \<Rightarrow> string \<Rightarrow> string list" where
  "py_split sep [] = [[]]"
| "py_split sep (c # cs) =
     (if c = sep then [] # py_split sep cs
      else (case py_split sep cs of [] \<Rightarrow> [[c]] | p # ps \<Rightarrow> (c # p) # ps))"

text \<open>\<open>s.replace(a, b)\<close> for \<open>a\<close> and \<open>b\<close> of one character.\<close>

definition py_replace :: "char \<Rightarrow> char \<Rightarrow> string \<Rightarrow> string" where
  "py_replace a b s = map (\<lambda>c. if c = a then b else c) s"

text \<open>\<open>sep.join(xs)\<close>\<close>

fun py_join :: "string \<Rightarrow> string list \<Rightarrow> string" where
  "py_join sep [] = []"
| "py_join sep [x] = x"
| "py_join sep (x # y # ys) = x @ sep @ py_join sep (y # ys)"

section \<open>Exceptions as values\<close>

datatype error = IndexError | ValueError | TypeError | AttributeError | JSONDecodeError
  | BackendError

definition bind_err :: "error + 'a \<Rightarrow> ('a \<Rightarrow> error + 'b) \<Rightarrow> error + 'b" where
  "bind_err m f = (case m of Inl e \<Rightarrow> Inl e | Inr x \<Rightarrow> f x)"

text \<open>\<open>xs[i]\<close> for an index that is not negative.\<close>

definition py_index :: "'a list \<Rightarrow> nat \<Rightarrow> error + 'a" where
  "py_index xs i = (if i < length xs then Inr (xs ! i) else Inl IndexError)"

text \<open>
  \<open>max(xs, key=key)\<close>: the first element whose key is largest; \<open>ValueError\<close> on an
  empty list.
\<close>

fun max_loop :: "('a \<Rightarrow> nat) \<Rightarrow> 'a \<Rightarrow> 'a list \<Rightarrow> 'a" where
  "max_loop key best [] = best"
| "max_loop key best (c # cs) = max_loop key (if key best < key c then c else best) cs"

definition py_max :: "('a \<Rightarrow> nat) \<Rightarrow> 'a list \<Rightarrow> error + 'a" where
  "py_max key xs = (case xs of [] \<Rightarrow> Inl ValueError | x # rest \<Rightarrow> Inr (max_loop key x rest))"

section \<open>Regular expressions: a backtracking matcher\<close>

text \<open>
  The patterns of the source are kept as syntax trees. \<open>Chars P\<close> is one character of
  a class, \<open>WordB\<close> is \<open>\b\<close>, \<open>Star\<close> is the greedy \<open>*\<close> and \<open>LazyStar\<close> is \<open>*?\<close>; the
  other operators of the patterns are derived below.
\<close>

datatype regex = Eps | Chars "char \<Rightarrow> bool" | WordB | Seq regex regex | Alt regex regex
  | Star regex | LazyStar regex

text \<open>
  A position in the subject is the text before it, reversed (so that its head is the
  previous character), and the text from it on.
\<close>

type_synonym pos = "string \<times> string"

text \<open>
  \<open>\b\<close> holds where exactly one of the previous and the next character is a word
  character; the start and the end of the subject count as a non-word character.
\<close>

definition word_boundary :: "pos \<Rightarrow> bool" where
  "word_boundary x =
     ((case fst x of [] \<Rightarrow> False | c # _ \<Rightarrow> is_word c) \<noteq>
      (case snd x of [] \<Rightarrow> False | c # _ \<Rightarrow> is_word c))"

text \<open>
  The matcher returns every position at which a match of the pattern that starts at
  the given position can end, in the order in which Python's backtracking matcher tries
  them: the head of the list is the match Python reports. A greedy star tries one more
  repetition before it tries to stop, a lazy star the other way round. The counter
  bounds the number of repetitions by the length of the remaining text; every repeated
  body of the patterns below consumes a character, so the bound is never reached.
\<close>

primrec star_greedy :: "(pos \<Rightarrow> pos list) \<Rightarrow> nat \<Rightarrow> pos \<Rightarrow> pos list" where
  "star_greedy f 0 x = [x]"
| "star_greedy f (Suc n) x = concat (map (star_greedy f n) (f x)) @ [x]"

primrec star_lazy :: "(pos \<Rightarrow> pos list) \<Rightarrow> nat \<Rightarrow> pos \<Rightarrow> pos list" where
  "star_lazy f 0 x = [x]"
| "star_lazy f (Suc n) x = x # concat (map (star_lazy f n) (f x))"

primrec rmatch :: "regex \<Rightarrow> pos \<Rightarrow> pos list" where
  "rmatch Eps x = [x]"
| "rmatch (Chars P) x =
     (case snd x of [] \<Rightarrow> [] | c # cs \<Rightarrow> if P c then [(c # fst x, cs)] else [])"
| "rmatch WordB x = (if word_boundary x then [x] else [])"
| "rmatch (Seq r1 r2) x = concat (map (rmatch r2) (rmatch r1 x))"
| "rmatch (Alt r1 r2) x = rmatch r1 x @ rmatch r2 x"
| "rmatch (Star r) x = star_greedy (rmatch r) (length (snd x)) x"
| "rmatch (LazyStar r) x = star_lazy (rmatch r) (length (snd x)) x"

text \<open>A literal character, a literal string, \<open>r+\<close>, \<open>r?\<close>, \<open>r{m,}\<close> and \<open>r{m,n}\<close>.\<close>

definition Chr :: "char \<Rightarrow> regex" where
  "Chr c = Chars (\<lambda>d. d = c)"

fun Lit :: "string \<Rightarrow> regex" where
  "Lit [] = Eps"
| "Lit [c] = Chr c"
| "Lit (c # cs) = Seq (Chr c) (Lit cs)"

definition Plus :: "regex \<Rightarrow> regex" where
  "Plus r = Seq r (Star r)"

definition Opt :: "regex \<Rightarrow> regex" where
  "Opt r = Alt r Eps"

fun rep_exact :: "nat \<Rightarrow> regex \<Rightarrow> regex" where
  "rep_exact 0 r = Eps"
| "rep_exact (Suc n) r = Seq r (rep_exact n r)"

fun rep_upto :: "nat \<Rightarrow> regex \<Rightarrow> regex" where
  "rep_upto 0 r = Eps"
| "rep_upto (Suc n) r = Opt (Seq r (rep_upto n r))"

definition AtLeast :: "nat \<Rightarrow> regex \<Rightarrow> regex" where
  "AtLeast m r = Seq (rep_exact m r) (Star r)"

definition Between :: "nat \<Rightarrow> nat \<Rightarrow> regex \<Rightarrow> regex" where
  "Between m n r = Seq (rep_exact m r) (rep_upto (n - m) r)"

text \<open>The text between two positions of one subject: \<open>m.group(0)\<close>.\<close>

definition matched :: "string \<Rightarrow> string \<Rightarrow> string" where
  "matched b b' = rev (take (length b' - length b) b')"

text \<open>\<open>pattern.match(s)\<close>: a match at the start of \<open>s\<close>, as its text.\<close>

definition re_match :: "regex \<Rightarrow> string \<Rightarrow> string option" where
  "re_match r s = (case rmatch r ([], s) of [] \<Rightarrow> None | y # _ \<Rightarrow> Some (matched [] (fst y)))"

text \<open>\<open>pattern.search(s)\<close>: the match at the leftmost position that has one.\<close>

fun search_from :: "regex \<Rightarrow> string \<Rightarrow> string \<Rightarrow> string option" where
  "search_from r b s =
     (case rmatch r (b, s) of
        y # _ \<Rightarrow> Some (matched b (fst y))
      | [] \<Rightarrow> (case s of [] \<Rightarrow> None | c # cs \<Rightarrow> search_from r (c # b) cs))"

definition re_search :: "regex \<Rightarrow> string \<Rightarrow> string option" where
  "re_search r s = search_from r [] s"

text \<open>
  \<open>pattern.finditer(s)\<close> and, for a pattern without groups, \<open>pattern.findall(s)\<close>: the
  texts of the matches from left to right, each search starting where the previous
  match ended. After an empty match the search moves on by one character; no pattern
  below matches the empty string.
\<close>

function finditer_from :: "regex \<Rightarrow> string \<Rightarrow> string \<Rightarrow> string list" where
  "finditer_from r b s =
     (case rmatch r (b, s) of
        y # _ \<Rightarrow>
          if length (snd y) < length s
          then matched b (fst y) # finditer_from r (fst y) (snd y)
          else [] # (case s of [] \<Rightarrow> [] | c # cs \<Rightarrow> finditer_from r (c # b) cs)
      | [] \<Rightarrow> (case s of [] \<Rightarrow> [] | c # cs \<Rightarrow> finditer_from r (c # b) cs))"
  by pat_completeness auto
termination
  by (relation "measure (\<lambda>(r, b, s). length s)") auto

declare finditer_from.simps [simp del]
declare search_from.simps [simp del]

definition re_finditer :: "regex \<Rightarrow> string \<Rightarrow> string list" where
  "re_finditer r s = finditer_from r [] s"

definition re_findall :: "regex \<Rightarrow> string \<Rightarrow> string list" where
  "re_findall r s = re_finditer r s"

text \<open>
  \<open>pattern.sub(repl, s)\<close>: every match is replaced, the text between matches is kept.
  The replacement is given as a function of the matched text.
\<close>

function sub_from :: "regex \<Rightarrow> (string \<Rightarrow> string) \<Rightarrow> string \<Rightarrow> string \<Rightarrow> string" where
  "sub_from r repl b s =
     (case rmatch r (b, s) of
        y # _ \<Rightarrow>
          if length (snd y) < length s
          then repl (matched b (fst y)) @ sub_from r repl (fst y) (snd y)
          else repl [] @ (case s of [] \<Rightarrow> [] | c # cs \<Rightarrow> c # sub_from r repl (c # b) cs)
      | [] \<Rightarrow> (case s of [] \<Rightarrow> [] | c # cs \<Rightarrow> c # sub_from r repl (c # b) cs))"
  by pat_completeness auto
termination
  by (relation "measure (\<lambda>(r, repl, b, s). length s)") auto

declare sub_from.simps [simp del]

definition re_sub :: "regex \<Rightarrow> (string \<Rightarrow> string) \<Rightarrow> string \<Rightarrow> string" where
  "re_sub r repl s = sub_from r repl [] s"

section \<open>The patterns of the source\<close>

text \<open>\<^verbatim>\<open>PHONE_REGEX = re.compile(r'(?:\+|\b)\d+(?:[\s.-]\d+)*')\<close>\<close>

definition is_phone_sep :: "char \<Rightarrow> bool" where
  "is_phone_sep c = (is_space c \<or> c = CHR ''.'' \<or> c = CHR ''-'')"

definition PHONE_REGEX :: regex where
  "PHONE_REGEX =
     Seq (Alt (Chr CHR ''+'') WordB)
       (Seq (Plus (Chars is_digit))
         (Star (Seq (Chars is_phone_sep) (Plus (Chars is_digit)))))"

text \<open>
  \<^verbatim>\<open>EMAIL_REGEX = re.compile(r'\b[A-Za-z0-9._%+-]+@[A-Za-z0-9.-]+\.[A-Z|a-z]{2,}\b')\<close>
\<close>

definition is_local_char :: "char \<Rightarrow> bool" where
  "is_local_char c = (is_alpha c \<or> is_digit c \<or> c \<in> set ''._%+-'')"

definition is_domain_char :: "char \<Rightarrow> bool" where
  "is_domain_char c = (is_alpha c \<or> is_digit c \<or> c \<in> set ''.-'')"

definition is_tld_char :: "char \<Rightarrow> bool" where
  "is_tld_char c = (is_alpha c \<or> c = CHR ''|'')"

definition EMAIL_REGEX :: regex where
  "EMAIL_REGEX =
     Seq WordB
       (Seq (Plus (Chars is_local_char))
         (Seq (Chr CHR ''@'')
           (Seq (Plus (Chars is_domain_char))
             (Seq (Chr CHR ''.'')
               (Seq (AtLeast 2 (Chars is_tld_char)) WordB)))))"

text \<open>A capitalised word \<open>[A-Z][a-z]+\<close>, and one that follows a white-space character.\<close>

definition cap_word :: regex where
  "cap_word = Seq (Chars is_upper) (Plus (Chars is_lower))"

definition next_cap_word :: regex where
  "next_cap_word = Seq (Chars is_space) cap_word"

text \<open>\<^verbatim>\<open>r'\b[A-Z][a-z]+(?:\s[A-Z][a-z]+){1,2}\b'\<close> (in \<open>validate_name\<close>)\<close>

definition NAME_PATTERN :: regex where
  "NAME_PATTERN = Seq WordB (Seq cap_word (Seq (Between 1 2 next_cap_word) WordB))"

text \<open>\<^verbatim>\<open>r'\b[A-Z][a-z]+(?:\s[A-Z][a-z]+){1,3}\b'\<close> (in \<open>validate_description\<close>)\<close>

definition TITLE_PATTERN :: regex where
  "TITLE_PATTERN = Seq WordB (Seq cap_word (Seq (Between 1 3 next_cap_word) WordB))"

text \<open>
  \<^verbatim>\<open>r'\b[A-Z][a-zA-Z\s&.-]+(?:Pvt\.?\s*Ltd\.?|Inc\.?|LLC)?\b'\<close> (in \<open>validate_company\<close>)
\<close>

definition is_company_char :: "char \<Rightarrow> bool" where
  "is_company_char c = (is_alpha c \<or> is_space c \<or> c \<in> set ''&.-'')"

definition legal_suffix :: regex where
  "legal_suffix =
     Alt (Seq (Lit ''Pvt'') (Seq (Opt (Chr CHR ''.''))
            (Seq (Star (Chars is_space)) (Seq (Lit ''Ltd'') (Opt (Chr CHR ''.''))))))
       (Alt (Seq (Lit ''Inc'') (Opt (Chr CHR ''.''))) (Lit ''LLC''))"

definition COMPANY_PATTERN :: regex where
  "COMPANY_PATTERN =
     Seq WordB (Seq (Chars is_upper) (Seq (Plus (Chars is_company_char))
       (Seq (Opt legal_suffix) WordB)))"

text \<open>\<^verbatim>\<open>r'[()]'\<close>, \<^verbatim>\<open>r'[^\d]'\<close> and \<^verbatim>\<open>r'\s+'\<close>\<close>

definition PARENS :: regex where
  "PARENS = Chars (\<lambda>c. c = CHR ''('' \<or> c = CHR '')'')"

definition NON_DIGIT :: regex where
  "NON_DIGIT = Chars (\<lambda>c. \<not> is_digit c)"

definition SPACES :: regex where
  "SPACES = Plus (Chars is_space)"

text \<open>
  \<^verbatim>\<open>r'\*\*(.*?)\*\*'\<close> and \<^verbatim>\<open>r'\*(.*?)\*'\<close>: the dot matches every character but the
  line feed. The group spans all that lies between the two literal delimiters.
\<close>

definition not_newline :: "char \<Rightarrow> bool" where
  "not_newline c = (c \<noteq> CHR 0x0A)"

definition BOLD :: regex where
  "BOLD = Seq (Lit ''**'') (Seq (LazyStar (Chars not_newline)) (Lit ''**''))"

definition ITALIC :: regex where
  "ITALIC = Seq (Lit ''*'') (Seq (LazyStar (Chars not_newline)) (Lit ''*''))"

text \<open>The replacement \<^verbatim>\<open>r'\1'\<close> for a pattern with delimiters of \<open>n\<close> characters.\<close>

definition group1 :: "nat \<Rightarrow> string \<Rightarrow> string" where
  "group1 n m = take (length m - 2 * n) (drop n m)"

section \<open>The field validators\<close>

subsection \<open>Phone numbers: formatting and candidates\<close>

text \<open>The digits of a string: \<^verbatim>\<open>re.sub(r'[^\d]', '', s)\<close>.\<close>

definition digits_of :: "string \<Rightarrow> string" where
  "digits_of s = re_sub NON_DIGIT (\<lambda>m. []) s"

text \<open>\<^verbatim>\<open>re.sub(r'[()]', '', s)\<close>\<close>

definition strip_parens :: "string \<Rightarrow> string" where
  "strip_parens s = re_sub PARENS (\<lambda>m. []) s"

definition country_code :: "string \<Rightarrow> error + string" where
  "country_code digits =
     (if startswith digits ''91'' then Inr ''91''
      else if startswith digits ''1'' then Inr ''1''
      else bind_err (py_index digits 0) (\<lambda>d0.
        let country_len =
              (if d0 \<noteq> CHR ''1'' \<and> d0 \<noteq> CHR ''9'' then 1
               else if startswith digits ''91'' then 2
               else if 10 < length digits then 3 else 1)
        in Inr (take country_len digits)))"

definition format_phone :: "string \<Rightarrow> error + string" where
  "format_phone matched_phone =
     (let digits = digits_of matched_phone in
      if length digits < 7 then Inr ''N/A''
      else bind_err (country_code digits) (\<lambda>country.
        let rest = drop (length country) digits in
        if length rest \<noteq> 10 then Inr (''+'' @ country @ '' '' @ rest)
        else if country = ''91''
          then Inr (''+91 '' @ take 2 rest @ '' '' @ take 4 (drop 2 rest) @ '' '' @ drop 6 rest)
        else if country = ''1''
          then Inr (''+1-'' @ take 3 rest @ ''-'' @ take 3 (drop 3 rest) @ ''-'' @ drop 6 rest)
        else Inr (''+'' @ country @ '' '' @ take 3 rest @ '' '' @ take 3 (drop 3 rest)
                    @ '' '' @ drop 6 rest)))"

definition phone_candidates :: "string \<Rightarrow> string list" where
  "phone_candidates raw_text =
     (let raw_clean = strip_parens raw_text;
          candidates = re_finditer PHONE_REGEX raw_clean
      in filter (\<lambda>c. 7 \<le> length (digits_of c)) candidates)"

definition best_candidate :: "string list \<Rightarrow> error + string" where
  "best_candidate valid =
     (let with_plus = filter (\<lambda>c. startswith c ''+'') valid in
      if with_plus \<noteq> [] then py_max (\<lambda>x. length (digits_of x)) with_plus
      else py_max (\<lambda>x. length (digits_of x)) valid)"

subsection \<open>What a match of the matcher consumes\<close>

definition consumes :: "(char \<Rightarrow> bool) \<Rightarrow> pos \<Rightarrow> pos \<Rightarrow> bool" where
  "consumes P x y = (\<exists>w. fst y = rev w @ fst x \<and> snd x = w @ snd y \<and> list_all P w)"

primrec alphabet :: "regex \<Rightarrow> char \<Rightarrow> bool" where
  "alphabet Eps c = False"
| "alphabet (Chars P) c = P c"
| "alphabet WordB c = False"
| "alphabet (Seq r1 r2) c = (alphabet r1 c \<or> alphabet r2 c)"
| "alphabet (Alt r1 r2) c = (alphabet r1 c \<or> alphabet r2 c)"
| "alphabet (Star r) c = alphabet r c"
| "alphabet (LazyStar r) c = alphabet r c"

lemma consumes_refl: "consumes P x x"
  by (simp add: consumes_def)

lemma consumes_trans: "consumes P x y \<Longrightarrow> consumes P y z \<Longrightarrow> consumes P x z"
  unfolding consumes_def
proof -
  assume "\<exists>w. fst y = rev w @ fst x \<and> snd x = w @ snd y \<and> list_all P w"
    and "\<exists>w. fst z = rev w @ fst y \<and> snd y = w @ snd z \<and> list_all P w"
  then obtain w1 w2 where
    1: "fst y = rev w1 @ fst x" "snd x = w1 @ snd y" "list_all P w1" and
    2: "fst z = rev w2 @ fst y" "snd y = w2 @ snd z" "list_all P w2" by blast
  have "fst z = rev (w1 @ w2) @ fst x \<and> snd x = (w1 @ w2) @ snd z \<and> list_all P (w1 @ w2)"
    using 1 2 by simp
  then show "\<exists>w. fst z = rev w @ fst x \<and> snd x = w @ snd z \<and> list_all P w" by blast
qed

lemma consumes_mono: "consumes P x y \<Longrightarrow> (\<And>c. P c \<Longrightarrow> Q c) \<Longrightarrow> consumes Q x y"
  unfolding consumes_def by (metis list_all_iff)

lemma star_greedy_consumes:
  assumes "\<And>x y. y \<in> set (f x) \<Longrightarrow> consumes P x y"
  shows "y \<in> set (star_greedy f n x) \<Longrightarrow> consumes P x y"
proof (induction n arbitrary: x)
  case 0
  then show ?case by (simp add: consumes_refl)
next
  case (Suc n)
  show ?case
  proof (cases "y = x")
    case True
    then show ?thesis by (simp add: consumes_refl)
  next
    case False
    with Suc.prems obtain z where z: "z \<in> set (f x)" "y \<in> set (star_greedy f n z)" by auto
    from assms[OF z(1)] Suc.IH[OF z(2)] show ?thesis by (rule consumes_trans)
  qed
qed

lemma star_lazy_consumes:
  assumes "\<And>x y. y \<in> set (f x) \<Longrightarrow> consumes P x y"
  shows "y \<in> set (star_lazy f n x) \<Longrightarrow> consumes P x y"
proof (induction n arbitrary: x)
  case 0
  then show ?case by (simp add: consumes_refl)
next
  case (Suc n)
  show ?case
  proof (cases "y = x")
    case True
    then show ?thesis by (simp add: consumes_refl)
  next
    case False
    with Suc.prems obtain z where z: "z \<in> set (f x)" "y \<in> set (star_lazy f n z)" by auto
    from assms[OF z(1)] Suc.IH[OF z(2)] show ?thesis by (rule consumes_trans)
  qed
qed

lemma rmatch_consumes: "y \<in> set (rmatch r x) \<Longrightarrow> consumes (alphabet r) x y"
proof (induction r arbitrary: x y)
  case Eps
  then show ?case by (simp add: consumes_refl)
next
  case (Chars P)
  then show ?case by (cases x) (auto simp: consumes_def split: list.splits if_splits)
next
  case WordB
  then show ?case by (simp add: consumes_refl split: if_splits)
next
  case (Seq r1 r2)
  from Seq.prems obtain z where z: "z \<in> set (rmatch r1 x)" "y \<in> set (rmatch r2 z)" by auto
  have "consumes (alphabet (Seq r1 r2)) x z"
    using Seq.IH(1)[OF z(1)] by (rule consumes_mono) simp
  moreover have "consumes (alphabet (Seq r1 r2)) z y"
    using Seq.IH(2)[OF z(2)] by (rule consumes_mono) simp
  ultimately show ?case by (rule consumes_trans)
next
  case (Alt r1 r2)
  from Alt.prems have "y \<in> set (rmatch r1 x) \<or> y \<in> set (rmatch r2 x)" by simp
  then show ?case
  proof
    assume "y \<in> set (rmatch r1 x)"
    from Alt.IH(1)[OF this] show ?thesis by (rule consumes_mono) simp
  next
    assume "y \<in> set (rmatch r2 x)"
    from Alt.IH(2)[OF this] show ?thesis by (rule consumes_mono) simp
  qed
next
  case (Star r)
  then show ?case using star_greedy_consumes[of "rmatch r" "alphabet r"] by simp
next
  case (LazyStar r)
  then show ?case using star_lazy_consumes[of "rmatch r" "alphabet r"] by simp
qed

subsection \<open>The first match of the phone pattern\<close>

lemma star_greedy_nonempty: "star_greedy f n x \<noteq> []"
  by (cases n) simp_all

lemma consumes_pair:
  "consumes P (b, s) y \<Longrightarrow> \<exists>w. y = (rev w @ b, drop (length w) s) \<and> s = w @ snd y \<and> list_all P w"
  unfolding consumes_def by (cases y) auto

lemma takeWhile_cut:
  assumes "takeWhile P (a @ v @ t) = a"
  shows "takeWhile P (a @ v) = a"
proof -
  have all: "\<forall>x\<in>set a. P x" using assms by (metis set_takeWhileD)
  then have "takeWhile P (a @ v @ t) = a @ takeWhile P (v @ t)"
    by simp
  with assms have "takeWhile P (v @ t) = []" by simp
  then have "takeWhile P v = []" by (cases v) (auto split: if_splits)
  with all show ?thesis by (simp add: takeWhile_append2)
qed

lemma star_chars_head:
  "length s \<le> n \<Longrightarrow>
   \<exists>ys. star_greedy (rmatch (Chars P)) n (b, s) = (rev (takeWhile P s) @ b, dropWhile P s) # ys"
proof (induction s arbitrary: n b)
  case Nil
  then show ?case by (cases n) simp_all
next
  case (Cons c cs)
  then obtain n' where n: "n = Suc n'" "length cs \<le> n'" by (cases n) auto
  show ?case
  proof (cases "P c")
    case True
    from Cons.IH[OF n(2), of "c # b"] obtain ys where
      "star_greedy (rmatch (Chars P)) n' (c # b, cs) = (rev (takeWhile P cs) @ c # b, dropWhile P cs) # ys"
      by blast
    moreover have "rmatch (Chars P) (b, c # cs) = [(c # b, cs)]" using True by simp
    ultimately show ?thesis using n True by (simp del: rmatch.simps)
  next
    case False
    then have "rmatch (Chars P) (b, c # cs) = []" by simp
    then show ?thesis using n False by (simp del: rmatch.simps)
  qed
qed

lemma plus_chars_nil:
  "s = [] \<or> \<not> P (hd s) \<Longrightarrow> rmatch (Plus (Chars P)) (b, s) = []"
  by (cases s) (auto simp: Plus_def)

lemma plus_chars_head:
  assumes "P c"
  shows "\<exists>ys. rmatch (Plus (Chars P)) (b, c # cs) =
           (rev (takeWhile P (c # cs)) @ b, dropWhile P (c # cs)) # ys"
proof -
  from star_chars_head[of cs "length cs" P "c # b"] obtain ys where
    "star_greedy (rmatch (Chars P)) (length cs) (c # b, cs) =
       (rev (takeWhile P cs) @ c # b, dropWhile P cs) # ys" by auto
  with assms show ?thesis by (simp add: Plus_def)
qed

definition phone_group :: regex where
  "phone_group = Seq (Chars is_phone_sep) (Plus (Chars is_digit))"

definition phone_body :: regex where
  "phone_body = Seq (Plus (Chars is_digit)) (Star phone_group)"

lemma PHONE_REGEX_body: "PHONE_REGEX = Seq (Alt (Chr CHR ''+'') WordB) phone_body"
  by (simp add: PHONE_REGEX_def phone_body_def phone_group_def)

lemma phone_group_cases:
  assumes "rmatch phone_group (b, s) = y # ys"
  shows "\<exists>c d ds. s = c # d # ds \<and> is_phone_sep c \<and> is_digit d \<and>
           y = (rev (takeWhile is_digit (d # ds)) @ c # b, dropWhile is_digit (d # ds))"
proof (cases s)
  case Nil
  with assms show ?thesis by (simp add: phone_group_def)
next
  case (Cons c s1)
  show ?thesis
  proof (cases "is_phone_sep c")
    case False
    with assms Cons show ?thesis by (simp add: phone_group_def)
  next
    case True
    with assms Cons have 1: "rmatch (Plus (Chars is_digit)) (c # b, s1) = y # ys"
      by (simp add: phone_group_def)
    show ?thesis
    proof (cases s1)
      case Nil
      with 1 show ?thesis by (simp add: plus_chars_nil)
    next
      case (Cons d ds)
      show ?thesis
      proof (cases "is_digit d")
        case False
        with 1 Cons show ?thesis by (simp add: plus_chars_nil)
      next
        case d: True
        from plus_chars_head[where P = is_digit and c = d and b = "c # b" and cs = ds] d 1 Cons
        have "y = (rev (takeWhile is_digit (d # ds)) @ c # b, dropWhile is_digit (d # ds))"
          by auto
        with True d Cons \<open>s = c # s1\<close> show ?thesis by blast
      qed
    qed
  qed
qed

lemma phone_group_head:
  assumes "is_phone_sep c" "is_digit d"
  shows "\<exists>ys. rmatch phone_group (b, c # d # ds) =
           (rev (takeWhile is_digit (d # ds)) @ c # b, dropWhile is_digit (d # ds)) # ys"
  using assms plus_chars_head[where P = is_digit and c = d and b = "c # b" and cs = ds]
  by (simp add: phone_group_def)

lemma hd_concat_map:
  "xs = y # ys \<Longrightarrow> f y = z # zs \<Longrightarrow> \<exists>ws. concat (map f xs) = z # ws"
  by simp

lemma star_group_trunc:
  "star_greedy (rmatch phone_group) n (b, w @ t) = (rev w @ b, t) # ys \<Longrightarrow> length w \<le> n' \<Longrightarrow>
   \<exists>zs. star_greedy (rmatch phone_group) n' (b', w) = (rev w @ b', []) # zs"
proof (induction n arbitrary: b b' w n' ys)
  case 0
  then have "w = []" by simp
  moreover have "rmatch phone_group (b', []) = []"
    by (simp add: phone_group_def)
  ultimately show ?case by (cases n') simp_all
next
  case (Suc n)
  show ?case
  proof (cases "rmatch phone_group (b, w @ t)")
    case Nil
    with Suc.prems have "w = []" by simp
    moreover have "rmatch phone_group (b', []) = []"
      by (simp add: phone_group_def)
    ultimately show ?thesis by (cases n') simp_all
  next
    case (Cons y1 ys1)
    from phone_group_cases[OF Cons] obtain c d ds where
      s: "w @ t = c # d # ds" "is_phone_sep c" "is_digit d" and
      y1: "y1 = (rev (takeWhile is_digit (d # ds)) @ c # b, dropWhile is_digit (d # ds))"
      by blast
    define u where "u = c # takeWhile is_digit (d # ds)"
    define r1 where "r1 = dropWhile is_digit (d # ds)"
    have y1': "y1 = (rev u @ b, r1)" and ur: "w @ t = u @ r1"
      using y1 s by (simp_all add: u_def r1_def)
    obtain z zs where st: "star_greedy (rmatch phone_group) n y1 = z # zs"
      using star_greedy_nonempty[of "rmatch phone_group" n y1] by (cases "star_greedy (rmatch phone_group) n y1") auto
    with Suc.prems(1) Cons have z: "z = (rev w @ b, t)" by simp
    have "z \<in> set (star_greedy (rmatch phone_group) n y1)" using st by simp
    then have "consumes (alphabet phone_group) y1 z"
      by (rule star_greedy_consumes[rotated]) (rule rmatch_consumes)
    then obtain v where v: "rev w @ b = rev v @ rev u @ b" "r1 = v @ t"
      unfolding consumes_def z y1' by auto
    then have w: "w = u @ v" by (metis append_assoc rev_append rev_rev_ident same_append_eq)
    have "star_greedy (rmatch phone_group) n (rev u @ b, v @ t) = (rev v @ rev u @ b, t) # zs"
      using st z y1' v by simp
    moreover from Suc.prems(2) w obtain n'' where n'': "n' = Suc n''" "length v \<le> n''"
      by (cases n') (auto simp: u_def)
    ultimately obtain zs' where
      IH: "star_greedy (rmatch phone_group) n'' (rev u @ b', v) = (rev v @ rev u @ b', []) # zs'"
      using Suc.IH[of "rev u @ b" v zs n'' "rev u @ b'"] by auto
    have tw: "takeWhile is_digit (tl u @ v) = tl u"
    proof (rule takeWhile_cut[where t = t])
      have "tl u @ v @ t = d # ds" using ur s w by (simp add: u_def)
      then show "takeWhile is_digit (tl u @ v @ t) = tl u" by (simp add: u_def)
    qed
    have tlu: "tl u \<noteq> []" "hd (tl u) = d" using s by (simp_all add: u_def)
    then obtain us where us: "tl u = d # us" by (cases "tl u") auto
    have uv: "u @ v = c # d # (us @ v)" using us by (simp add: u_def)
    from phone_group_head[where c = c and d = d and b = b' and ds = "us @ v"] s(2,3) obtain ws where
      "rmatch phone_group (b', c # d # (us @ v)) =
         (rev (takeWhile is_digit (d # (us @ v))) @ c # b', dropWhile is_digit (d # (us @ v))) # ws"
      by blast
    moreover have "takeWhile is_digit (d # (us @ v)) = d # us" using tw us by simp
    moreover have "dropWhile is_digit (d # (us @ v)) = v"
      using tw us by (metis append_Cons append_eq_conv_conj dropWhile_eq_drop length_Cons)
    ultimately have g: "rmatch phone_group (b', u @ v) = (rev u @ b', v) # ws"
      using uv us by (simp add: u_def)
    show ?thesis using g IH n'' w by simp
  qed
qed

lemma phone_body_trunc:
  assumes "rmatch phone_body (b, s) = y # ys"
  shows "\<exists>w c cs. w = c # cs \<and> is_digit c \<and> fst y = rev w @ b \<and> s = w @ snd y \<and>
           list_all (alphabet phone_body) w \<and>
           (\<forall>b'. \<exists>zs. rmatch phone_body (b', w) = (rev w @ b', []) # zs)"
proof -
  have dp: "rmatch (Plus (Chars is_digit)) (b, s) \<noteq> []"
    using assms by (auto simp: phone_body_def)
  then obtain c cs where s: "s = c # cs" "is_digit c"
    using plus_chars_nil[of s is_digit b] by (cases s) auto
  define ds where "ds = takeWhile is_digit s"
  define r1 where "r1 = dropWhile is_digit s"
  from plus_chars_head[where P = is_digit and c = c and b = b and cs = cs] s obtain hs where
    h: "rmatch (Plus (Chars is_digit)) (b, s) = (rev ds @ b, r1) # hs"
    by (auto simp: ds_def r1_def)
  obtain z zs where st: "rmatch (Star phone_group) (rev ds @ b, r1) = z # zs"
    using star_greedy_nonempty[of "rmatch phone_group" "length r1" "(rev ds @ b, r1)"]
    by (cases "rmatch (Star phone_group) (rev ds @ b, r1)") auto
  have yz: "y = z" using assms h st by (simp add: phone_body_def)
  have "y \<in> set (rmatch phone_body (b, s))" using assms by simp
  from consumes_pair[OF rmatch_consumes[OF this]] obtain w where
    w: "fst y = rev w @ b" "s = w @ snd y" "list_all (alphabet phone_body) w" by auto
  have "z \<in> set (rmatch (Star phone_group) (rev ds @ b, r1))" using st by simp
  from consumes_pair[OF rmatch_consumes[OF this]] obtain v where
    v: "fst z = rev v @ rev ds @ b" "r1 = v @ snd z" by auto
  have dsr: "s = ds @ r1" by (simp add: ds_def r1_def)
  have wv: "w = ds @ v" using w(1) v(1) yz by (metis append_assoc rev_append rev_rev_ident same_append_eq)
  have z: "z = (rev v @ rev ds @ b, snd y)" using v yz by (cases z) auto
  have ds_ne: "ds = c # takeWhile is_digit cs" using s by (simp add: ds_def)
  have tw: "takeWhile is_digit (ds @ v) = ds"
  proof (rule takeWhile_cut[where t = "snd y"])
    show "takeWhile is_digit (ds @ v @ snd y) = ds"
      using dsr v(2) yz by (metis ds_def)
  qed
  have dw: "dropWhile is_digit (ds @ v) = v"
    using tw by (metis append_eq_conv_conj dropWhile_eq_drop)
  have trunc: "\<exists>zs'. rmatch phone_body (b', w) = (rev w @ b', []) # zs'" for b'
  proof -
    from st z v(2) have
      "star_greedy (rmatch phone_group) (length (v @ snd y)) (rev ds @ b, v @ snd y) =
         (rev v @ rev ds @ b, snd y) # zs" by simp
    from star_group_trunc[OF this, of "length v" "rev ds @ b'"] obtain zs1 where
      1: "star_greedy (rmatch phone_group) (length v) (rev ds @ b', v) = (rev v @ rev ds @ b', []) # zs1"
      by auto
    from plus_chars_head[where P = is_digit and c = c and b = b' and cs = "takeWhile is_digit cs @ v"] s
    obtain hs' where
      2: "rmatch (Plus (Chars is_digit)) (b', ds @ v) = (rev ds @ b', v) # hs'"
      using tw dw by (auto simp: ds_ne)
    show ?thesis using 1 2 wv by (simp add: phone_body_def)
  qed
  have "w = c # (takeWhile is_digit cs @ v)" using wv ds_ne by simp
  with w s(2) trunc show ?thesis by blast
qed

lemma phone_body_needs_digit:
  assumes "rmatch phone_body (b, s) \<noteq> []"
  shows "s \<noteq> [] \<and> is_digit (hd s)"
proof (rule ccontr)
  assume "\<not> (s \<noteq> [] \<and> is_digit (hd s))"
  then have "rmatch (Plus (Chars is_digit)) (b, s) = []"
    by (intro plus_chars_nil) auto
  then have "rmatch phone_body (b, s) = []" by (simp add: phone_body_def)
  with assms show False by simp
qed

lemma not_digit_plus [simp]: "\<not> is_digit CHR ''+''"
  by (simp add: is_digit_def)

lemma digit_is_word: "is_digit c \<Longrightarrow> is_word c"
  by (simp add: is_word_def)

lemma matched_append: "matched b (rev w @ b) = w"
  by (simp add: matched_def)

text \<open>A match of the phone pattern, searched again on its own, is found whole.\<close>

lemma phone_rematch:
  assumes "rmatch PHONE_REGEX (b, s) = y # ys"
  shows "\<exists>zs. rmatch PHONE_REGEX ([], matched b (fst y)) = (rev (matched b (fst y)), []) # zs"
    and "list_all (alphabet PHONE_REGEX) (matched b (fst y))"
proof -
  have al: "list_all (alphabet PHONE_REGEX) (matched b (fst y))"
  proof -
    have "y \<in> set (rmatch PHONE_REGEX (b, s))" using assms by simp
    from consumes_pair[OF rmatch_consumes[OF this]] show ?thesis
      by (auto simp: matched_append)
  qed
  show "list_all (alphabet PHONE_REGEX) (matched b (fst y))" by (rule al)
  show "\<exists>zs. rmatch PHONE_REGEX ([], matched b (fst y)) = (rev (matched b (fst y)), []) # zs"
  proof (cases "s \<noteq> [] \<and> hd s = CHR ''+''")
    case True
    then obtain s1 where s: "s = CHR ''+'' # s1" by (cases s) auto
    have "rmatch phone_body (b, s) = []"
      using phone_body_needs_digit[of b s] s by auto
    with assms s have 1: "rmatch phone_body (CHR ''+'' # b, s1) = y # ys"
      by (simp add: PHONE_REGEX_body Chr_def split: if_splits)
    from phone_body_trunc[OF 1] obtain w where
      w: "fst y = rev w @ CHR ''+'' # b"
         "\<And>b'. \<exists>zs. rmatch phone_body (b', w) = (rev w @ b', []) # zs" by blast
    have m: "matched b (fst y) = CHR ''+'' # w"
      using matched_append[of b "CHR ''+'' # w"] w(1) by simp
    from w(2)[of "[CHR ''+'']"] obtain zs where
      "rmatch phone_body ([CHR ''+''], w) = (rev w @ [CHR ''+''], []) # zs" by blast
    then show ?thesis unfolding m by (simp add: PHONE_REGEX_body Chr_def)
  next
    case False
    then have "rmatch (Chr CHR ''+'') (b, s) = []" by (cases s) (auto simp: Chr_def)
    with assms have 1: "rmatch phone_body (b, s) = y # ys"
      by (auto simp: PHONE_REGEX_body split: if_splits)
    from phone_body_trunc[OF 1] obtain w c cs where
      w: "w = c # cs" "is_digit c" "fst y = rev w @ b"
         "\<And>b'. \<exists>zs. rmatch phone_body (b', w) = (rev w @ b', []) # zs" by blast
    have m: "matched b (fst y) = w" using matched_append[of b w] w(3) by simp
    from w(4)[of "[]"] obtain zs where
      2: "rmatch phone_body ([], w) = (rev w, []) # zs" by auto
    have "c \<noteq> CHR ''+''" using w(2) by auto
    then have 3: "rmatch (Chr CHR ''+'') ([], w) = []" using w(1) by (simp add: Chr_def)
    have 4: "word_boundary ([], w)" using w(1,2) by (simp add: word_boundary_def digit_is_word)
    show ?thesis unfolding m using 2 3 4 by (simp add: PHONE_REGEX_body del: rmatch.simps(2))
  qed
qed

lemma sub_chars_filter: "sub_from (Chars P) (\<lambda>m. []) b s = filter (\<lambda>c. \<not> P c) s"
proof (induction s arbitrary: b)
  case Nil
  show ?case by (simp add: sub_from.simps[of _ _ _ "[]"])
next
  case (Cons c cs)
  show ?case by (simp add: sub_from.simps[of _ _ _ "c # cs"] Cons.IH)
qed

lemma digits_of_filter: "digits_of s = filter is_digit s"
  by (simp add: digits_of_def re_sub_def NON_DIGIT_def sub_chars_filter)

lemma strip_parens_filter: "strip_parens s = filter (\<lambda>c. c \<noteq> CHR ''('' \<and> c \<noteq> CHR '')'') s"
  by (simp add: strip_parens_def re_sub_def PARENS_def sub_chars_filter)

lemma finditer_from_elem:
  "m \<in> set (finditer_from r b s) \<Longrightarrow>
   m = [] \<or> (\<exists>b' s' y ys. rmatch r (b', s') = y # ys \<and> m = matched b' (fst y))"
proof (induction r b s rule: finditer_from.induct)
  case (1 r b s)
  show ?case
  proof (cases "rmatch r (b, s)")
    case Nil
    show ?thesis
    proof (cases s)
      case Nil
      with \<open>rmatch r (b, s) = []\<close> "1.prems" show ?thesis
        by (simp add: finditer_from.simps[of r b "[]"])
    next
      case (Cons c cs)
      with Nil "1.prems" have "m \<in> set (finditer_from r (c # b) cs)"
        by (simp add: finditer_from.simps[of r b "c # cs"])
      with "1.IH"(1)[OF Nil Cons] show ?thesis by simp
    qed
  next
    case (Cons y ys)
    show ?thesis
    proof (cases "length (snd y) < length s")
      case True
      with Cons "1.prems" have "m = matched b (fst y) \<or> m \<in> set (finditer_from r (fst y) (snd y))"
        by (simp add: finditer_from.simps[of r b s])
      then show ?thesis
      proof
        assume "m = matched b (fst y)"
        with Cons show ?thesis by blast
      next
        assume "m \<in> set (finditer_from r (fst y) (snd y))"
        with "1.IH"(2)[OF Cons True] show ?thesis by simp
      qed
    next
      case False
      show ?thesis
      proof (cases s)
        case Nil
        with Cons False "1.prems" show ?thesis
          by (simp add: finditer_from.simps[of r b "[]"])
      next
        case (Cons c cs)
        with \<open>rmatch r (b, s) = y # ys\<close> False "1.prems"
        have "m = [] \<or> m \<in> set (finditer_from r (c # b) cs)"
          by (simp add: finditer_from.simps[of r b "c # cs"])
        with "1.IH"(3)[OF \<open>rmatch r (b, s) = y # ys\<close> False Cons] show ?thesis by blast
      qed
    qed
  qed
qed

lemma phone_alphabet_no_paren:
  "alphabet PHONE_REGEX c \<Longrightarrow> c \<noteq> CHR ''('' \<and> c \<noteq> CHR '')''"
  by (auto simp: PHONE_REGEX_def Plus_def Chr_def is_digit_def is_phone_sep_def is_space_def)

text \<open>A candidate found in the raw text is found again, whole, when it is searched itself.\<close>

lemma phone_candidate_search:
  assumes "m \<in> set (re_finditer PHONE_REGEX s)" "m \<noteq> []"
  shows "re_search PHONE_REGEX (strip_parens m) = Some m"
proof -
  from finditer_from_elem[of m PHONE_REGEX "[]" s] assms obtain b' s' y ys where
    y: "rmatch PHONE_REGEX (b', s') = y # ys" "m = matched b' (fst y)"
    by (auto simp: re_finditer_def)
  from phone_rematch[OF y(1)] y(2) obtain zs where
    1: "rmatch PHONE_REGEX ([], m) = (rev m, []) # zs" and
    2: "list_all (alphabet PHONE_REGEX) m" by auto
  have "strip_parens m = m"
    using 2 phone_alphabet_no_paren by (auto simp: strip_parens_filter list_all_iff filter_id_conv)
  moreover have "re_search PHONE_REGEX m = Some m"
    using 1 by (simp add: re_search_def search_from.simps[of _ "[]" m] matched_def)
  ultimately show ?thesis by simp
qed

lemma max_loop_mem: "max_loop key best cs \<in> set (best # cs)"
  by (induction cs arbitrary: best) (auto split: if_splits)

lemma py_max_mem: "py_max key xs = Inr x \<Longrightarrow> x \<in> set xs"
  using max_loop_mem[of key] by (auto simp: py_max_def split: list.splits)

lemma best_candidate_mem: "best_candidate valid = Inr x \<Longrightarrow> x \<in> set valid"
  by (auto simp: best_candidate_def Let_def dest!: py_max_mem split: if_splits)

lemma phone_candidates_search:
  assumes "m \<in> set (phone_candidates raw_text)"
  shows "re_search PHONE_REGEX (strip_parens m) = Some m" and "7 \<le> length (digits_of m)"
proof -
  from assms have 1: "m \<in> set (re_finditer PHONE_REGEX (strip_parens raw_text))"
    and 2: "7 \<le> length (digits_of m)" by (auto simp: phone_candidates_def Let_def)
  from 2 have "m \<noteq> []" by (auto simp: digits_of_filter)
  with 1 show "re_search PHONE_REGEX (strip_parens m) = Some m" by (rule phone_candidate_search)
  show "7 \<le> length (digits_of m)" by (rule 2)
qed

subsection \<open>\<open>validate_phone\<close>\<close>

function validate_phone :: "string \<Rightarrow> string \<Rightarrow> error + string" where
  "validate_phone phone raw_text =
     (case re_search PHONE_REGEX (strip_parens phone) of
        Some matched_phone \<Rightarrow> format_phone matched_phone
      | None \<Rightarrow>
          (let valid = phone_candidates raw_text in
           if valid \<noteq> []
           then (case best_candidate valid of
                   Inl e \<Rightarrow> Inl e
                 | Inr phone_str \<Rightarrow> validate_phone phone_str raw_text)
           else Inr ''N/A''))"
  by pat_completeness auto
termination
proof (relation "measure (\<lambda>(phone, raw_text).
          if re_search PHONE_REGEX (strip_parens phone) = None then 1 else 0)")
  show "wf (measure (\<lambda>(phone, raw_text).
          if re_search PHONE_REGEX (strip_parens phone) = None then 1 else 0))" by simp
next
  fix phone raw_text :: string and x :: "string list" and xa :: string
  assume "re_search PHONE_REGEX (strip_parens phone) = None"
    and "x = phone_candidates raw_text" and "x \<noteq> []"
    and "best_candidate x = Inr xa"
  then have "xa \<in> set (phone_candidates raw_text)" by (auto dest: best_candidate_mem)
  from phone_candidates_search(1)[OF this]
  show "((xa, raw_text), (phone, raw_text)) \<in> measure (\<lambda>(phone, raw_text).
          if re_search PHONE_REGEX (strip_parens phone) = None then 1 else 0)"
    using \<open>re_search PHONE_REGEX (strip_parens phone) = None\<close> by simp
qed

declare validate_phone.simps [simp del]

subsection \<open>Name, company, description and email\<close>

definition validate_name :: "string \<Rightarrow> string \<Rightarrow> error + string" where
  "validate_name name raw_text =
     (if name = ''N/A''
      then (let candidates = re_findall NAME_PATTERN raw_text in
            if candidates \<noteq> [] then py_index candidates 0 else Inr ''N/A'')
      else Inr (py_strip (py_title name)))"

definition validate_company :: "string \<Rightarrow> string \<Rightarrow> error + string" where
  "validate_company company raw_text =
     (if company = ''N/A''
      then (case re_search EMAIL_REGEX raw_text of
              Some email_match \<Rightarrow>
                bind_err (py_index (py_split CHR ''@'' email_match) 1) (\<lambda>domain.
                  Inr (py_title (py_replace CHR ''.'' CHR '' '' domain)))
            | None \<Rightarrow>
                (let candidates = re_findall COMPANY_PATTERN raw_text in
                 if candidates \<noteq> [] then py_index candidates 0 else Inr ''N/A''))
      else Inr (py_title (re_sub SPACES (\<lambda>m. '' '') company)))"

definition validate_description :: "string \<Rightarrow> string \<Rightarrow> error + string" where
  "validate_description desc raw_text =
     (if desc = ''N/A''
      then (let candidates = re_findall TITLE_PATTERN raw_text in
            if 2 \<le> length candidates then py_index candidates 1 else Inr ''N/A'')
      else Inr (py_strip (py_title desc)))"

definition validate_email :: "string \<Rightarrow> string \<Rightarrow> error + string" where
  "validate_email email raw_text =
     (if re_match EMAIL_REGEX email \<noteq> None then Inr (py_strip (py_lower email))
      else (case re_search EMAIL_REGEX raw_text of
              Some m \<Rightarrow> Inr (py_lower m)
            | None \<Rightarrow> Inr ''N/A''))"


section \<open>The structured extractor\<close>

text \<open>
  The values that \<open>json.loads\<close> returns. A Python \<open>float\<close> is kept as a real number:
  the extractor only tests it for being zero. A \<open>dict\<close> is the list of its items in
  insertion order.
\<close>

datatype pyval = PNone | PBool bool | PInt int | PFloat real | PStr string
  | PList "pyval list" | PDict "(string \<times> pyval) list"

type_synonym pydict = "(string \<times> pyval) list"

text \<open>Truth value of a Python value, as \<open>not text\<close> tests it.\<close>

fun truthy :: "pyval \<Rightarrow> bool" where
  "truthy PNone = False"
| "truthy (PBool b) = b"
| "truthy (PInt i) = (i \<noteq> 0)"
| "truthy (PFloat x) = (x \<noteq> 0)"
| "truthy (PStr s) = (s \<noteq> [])"
| "truthy (PList xs) = (xs \<noteq> [])"
| "truthy (PDict d) = (d \<noteq> [])"

text \<open>\<open>d.get(k, default)\<close> and \<open>d[k] = v\<close>\<close>

definition dict_get :: "pydict \<Rightarrow> string \<Rightarrow> pyval \<Rightarrow> pyval" where
  "dict_get d k dflt = (case map_of d k of None \<Rightarrow> dflt | Some v \<Rightarrow> v)"

fun dict_set :: "pydict \<Rightarrow> string \<Rightarrow> pyval \<Rightarrow> pydict" where
  "dict_set [] k v = [(k, v)]"
| "dict_set (p # ps) k v = (if fst p = k then (k, v) # ps else p # dict_set ps k v)"

text \<open>
  \<open>clean_markdown\<close>: a falsy value and the string \<open>N/A\<close> are returned as they are; on
  any other value that is not a string \<open>re.sub\<close> raises \<open>TypeError\<close>.
\<close>

definition clean_markdown :: "pyval \<Rightarrow> error + pyval" where
  "clean_markdown text =
     (if \<not> truthy text \<or> text = PStr ''N/A'' then Inr text
      else (case text of
              PStr s \<Rightarrow>
                (let s1 = re_sub BOLD (group1 2) s;
                     s2 = re_sub ITALIC (group1 1) s1
                 in Inr (PStr (py_strip s2)))
            | _ \<Rightarrow> Inl TypeError))"

text \<open>
  A validator called with a value of the parsed response. The validators are written
  for strings; each of them raises on any other value (\<open>name.title()\<close> and
  \<open>desc.title()\<close> raise \<open>AttributeError\<close>, \<open>re.sub\<close> and \<open>EMAIL_REGEX.match\<close> raise
  \<open>TypeError\<close>).
\<close>

definition call_validator ::
  "error \<Rightarrow> (string \<Rightarrow> string \<Rightarrow> error + string) \<Rightarrow> pyval \<Rightarrow> string \<Rightarrow> error + pyval" where
  "call_validator err validate v raw =
     (case v of
        PStr s \<Rightarrow> bind_err (validate s raw) (\<lambda>r. Inr (PStr r))
      | _ \<Rightarrow> Inl err)"

text \<open>\<^verbatim>\<open>for key in data: data[key] = clean_markdown(data.get(key, 'N/A'))\<close>\<close>

fun clean_loop :: "string list \<Rightarrow> pydict \<Rightarrow> error + pydict" where
  "clean_loop [] data = Inr data"
| "clean_loop (key # keys) data =
     bind_err (clean_markdown (dict_get data key (PStr ''N/A''))) (\<lambda>v.
       clean_loop keys (dict_set data key v))"

text \<open>Lines 171 to 176: every field goes through its validator, then \<open>data\<close> is returned.\<close>

definition apply_validations :: "pydict \<Rightarrow> string \<Rightarrow> error + pydict" where
  "apply_validations data raw =
     bind_err (call_validator AttributeError validate_name
                 (dict_get data ''name'' (PStr ''N/A'')) raw) (\<lambda>v.
     let data = dict_set data ''name'' v in
     bind_err (call_validator TypeError validate_company
                 (dict_get data ''company'' (PStr ''N/A'')) raw) (\<lambda>v.
     let data = dict_set data ''company'' v in
     bind_err (call_validator AttributeError validate_description
                 (dict_get data ''description'' (PStr ''N/A'')) raw) (\<lambda>v.
     let data = dict_set data ''description'' v in
     bind_err (call_validator TypeError validate_phone
                 (dict_get data ''phone'' (PStr ''N/A'')) raw) (\<lambda>v.
     let data = dict_set data ''phone'' v in
     bind_err (call_validator TypeError validate_email
                 (dict_get data ''email'' (PStr ''N/A'')) raw) (\<lambda>v.
     let data = dict_set data ''email'' v in
     Inr data)))))"

text \<open>
  What the model call of one attempt yields: the text of \<open>message.content\<close>, or an
  exception (a transport error, or any failure to read the reply).
\<close>

datatype reply = Raises error | Content string

text \<open>
  The body of the \<open>try\<close> block for one attempt. \<open>Inl\<close> is an exception (both \<open>except\<close>
  clauses log it and go on), \<open>Inr None\<close> is the end of the block without a \<open>return\<close>,
  \<open>Inr (Some data)\<close> is \<open>return data\<close>. \<open>json.loads\<close> is a parameter, \<open>None\<close> standing
  for \<open>JSONDecodeError\<close>; on a text that starts with a brace it returns a \<open>dict\<close> or
  raises, and every other value would raise in \<open>data.get\<close> at the latest.
\<close>

definition try_body :: "(string \<Rightarrow> pyval option) \<Rightarrow> reply \<Rightarrow> string \<Rightarrow> error + pydict option" where
  "try_body json_loads r raw =
     (case r of
        Raises e \<Rightarrow> Inl e
      | Content c \<Rightarrow>
          (let response = py_strip c in
           if startswith response ''{'' \<and> endswith response ''}''
           then (case json_loads response of
                   None \<Rightarrow> Inl JSONDecodeError
                 | Some (PDict data) \<Rightarrow>
                     bind_err (clean_loop (map fst data) data) (\<lambda>data.
                     bind_err (apply_validations data raw) (\<lambda>data.
                     Inr (Some data)))
                 | Some _ \<Rightarrow> Inl AttributeError)
           else Inr None))"

text \<open>\<^verbatim>\<open>for attempt in range(max_retries)\<close>: the first attempt that returns ends the loop.\<close>

fun retry_loop ::
  "(string \<Rightarrow> pyval option) \<Rightarrow> (nat \<Rightarrow> reply) \<Rightarrow> string \<Rightarrow> nat list \<Rightarrow> pydict option" where
  "retry_loop json_loads llm raw [] = None"
| "retry_loop json_loads llm raw (attempt # rest) =
     (case try_body json_loads (llm attempt) raw of
        Inr (Some data) \<Rightarrow> Some data
      | Inr None \<Rightarrow> retry_loop json_loads llm raw rest
      | Inl e \<Rightarrow> retry_loop json_loads llm raw rest)"

text \<open>\<open>raw_text or text\<close>, for \<open>raw_text\<close> a string or \<open>None\<close>.\<close>

definition raw_or :: "string option \<Rightarrow> string \<Rightarrow> string" where
  "raw_or raw_text text = (case raw_text of None \<Rightarrow> text | Some r \<Rightarrow> if r = [] then text else r)"

text \<open>Line 185: the record built by the validators alone.\<close>

definition regex_fallback :: "string \<Rightarrow> error + pydict" where
  "regex_fallback raw =
     bind_err (validate_name ''N/A'' raw) (\<lambda>name.
     bind_err (validate_company ''N/A'' raw) (\<lambda>company.
     bind_err (validate_description ''N/A'' raw) (\<lambda>description.
     bind_err (validate_phone ''N/A'' raw) (\<lambda>phone.
     bind_err (validate_email ''N/A'' raw) (\<lambda>email.
     Inr [(''name'', PStr name), (''company'', PStr company),
          (''description'', PStr description), (''phone'', PStr phone),
          (''email'', PStr email)])))))"

text \<open>
  \<open>extract_with_llm\<close>. \<open>client\<close> says whether a model client is configured, \<open>llm\<close> gives
  the reply of the model at each attempt.
\<close>

definition extract_with_llm ::
  "(string \<Rightarrow> pyval option) \<Rightarrow> bool \<Rightarrow> (nat \<Rightarrow> reply) \<Rightarrow> string \<Rightarrow> string option \<Rightarrow> int
     \<Rightarrow> error + pydict" where
  "extract_with_llm json_loads client llm text raw_text max_retries =
     (if text = [] \<or> \<not> client
      then Inr [(''name'', PStr ''N/A''), (''company'', PStr ''N/A''),
                (''description'', PStr ''N/A''), (''phone'', PStr ''N/A''),
                (''email'', PStr ''N/A'')]
      else (case retry_loop json_loads llm (raw_or raw_text text) [0..<nat max_retries] of
              Some data \<Rightarrow> Inr data
            | None \<Rightarrow> regex_fallback (raw_or raw_text text)))"

section \<open>Text recovery\<close>

text \<open>
  The outcome of the primary engine as the caller sees it at \<open>future.result(timeout)\<close>:
  the detections (text and confidence of each), an exception raised by the engine, or
  no result within the time budget.
\<close>

datatype primary = Detections "(string \<times> real) list" | Primary_raises error | Timed_out

text \<open>
  \<open>tesseract_fallback\<close>: the argument is what \<open>pytesseract.image_to_string\<close> does, its
  text or an exception.
\<close>

definition tesseract_fallback :: "error + string \<Rightarrow> error + string" where
  "tesseract_fallback tess = (case tess of Inl e \<Rightarrow> Inr [] | Inr text \<Rightarrow> Inr (py_strip text))"

text \<open>\<open>run_ocr_with_timeout\<close> of \<open>llm_manager.py\<close>.\<close>

definition run_ocr_with_timeout :: "primary \<Rightarrow> error + string \<Rightarrow> error + string" where
  "run_ocr_with_timeout easy tess =
     (case easy of
        Detections result \<Rightarrow> Inr (py_join '' '' (map fst result))
      | Primary_raises e \<Rightarrow> Inl e
      | Timed_out \<Rightarrow> tesseract_fallback tess)"

text \<open>
  \<open>run_ocr_with_timeout\<close> of \<open>bot.py\<close>: detections of confidence at most 0.5 are left
  out, and the fallback is written in place.
\<close>

definition bot_run_ocr_with_timeout :: "primary \<Rightarrow> error + string \<Rightarrow> error + string" where
  "bot_run_ocr_with_timeout easy tess =
     (case easy of
        Detections result \<Rightarrow> Inr (py_join '' '' (map fst (filter (\<lambda>det. 0.5 < snd det) result)))
      | Primary_raises e \<Rightarrow> Inl e
      | Timed_out \<Rightarrow> (case tess of Inl e \<Rightarrow> Inr [] | Inr text \<Rightarrow> Inr (py_strip text)))"


section \<open>Properties of the validators\<close>

lemma validate_phone_direct:
  "re_search PHONE_REGEX (strip_parens phone) = Some m \<Longrightarrow>
   validate_phone phone raw_text = format_phone m"
  by (simp add: validate_phone.simps)

lemma country_code_total:
  assumes "digits \<noteq> []"
  shows "\<exists>c. country_code digits = Inr c"
  using assms by (cases digits) (simp_all add: country_code_def py_index_def bind_err_def Let_def)

lemma format_phone_total: "\<exists>s. format_phone m = Inr s"
proof (cases "length (digits_of m) < 7")
  case True
  then show ?thesis by (simp add: format_phone_def Let_def)
next
  case False
  then have "digits_of m \<noteq> []" by auto
  from country_code_total[OF this] obtain c where "country_code (digits_of m) = Inr c" ..
  then show ?thesis by (simp add: format_phone_def Let_def bind_err_def)
qed

lemma py_max_total: "xs \<noteq> [] \<Longrightarrow> \<exists>x. py_max key xs = Inr x"
  by (cases xs) (simp_all add: py_max_def)

lemma best_candidate_total:
  assumes "valid \<noteq> []"
  shows "\<exists>x. best_candidate valid = Inr x"
  using assms py_max_total[of valid] py_max_total[of "filter (\<lambda>c. startswith c ''+'') valid"]
  by (simp add: best_candidate_def Let_def)

text \<open>The recursive call of \<open>validate_phone\<close> is answered by the formatting branch.\<close>

lemma validate_phone_unfolded:
  "validate_phone phone raw_text =
     (case re_search PHONE_REGEX (strip_parens phone) of
        Some matched_phone \<Rightarrow> format_phone matched_phone
      | None \<Rightarrow>
          (let valid = phone_candidates raw_text in
           if valid \<noteq> []
           then (case best_candidate valid of
                   Inl e \<Rightarrow> Inl e
                 | Inr phone_str \<Rightarrow> format_phone phone_str)
           else Inr ''N/A''))"
proof (cases "re_search PHONE_REGEX (strip_parens phone)")
  case (Some m)
  then show ?thesis by (simp add: validate_phone.simps)
next
  case None
  show ?thesis
  proof (cases "best_candidate (phone_candidates raw_text)")
    case (Inl e)
    with None show ?thesis by (simp add: validate_phone.simps[of phone] Let_def)
  next
    case (Inr phone_str)
    then have "phone_str \<in> set (phone_candidates raw_text)" by (rule best_candidate_mem)
    then have "re_search PHONE_REGEX (strip_parens phone_str) = Some phone_str"
      by (rule phone_candidates_search(1))
    then have "validate_phone phone_str raw_text = format_phone phone_str"
      by (rule validate_phone_direct)
    with None Inr show ?thesis by (simp add: validate_phone.simps[of phone] Let_def)
  qed
qed

lemma validate_phone_total: "\<exists>s. validate_phone phone raw_text = Inr s"
proof (cases "re_search PHONE_REGEX (strip_parens phone)")
  case (Some m)
  with format_phone_total[of m] show ?thesis by (simp add: validate_phone_unfolded)
next
  case None
  show ?thesis
  proof (cases "phone_candidates raw_text = []")
    case True
    with None show ?thesis by (simp add: validate_phone_unfolded)
  next
    case False
    from best_candidate_total[OF this] obtain x where
      "best_candidate (phone_candidates raw_text) = Inr x" ..
    with None False format_phone_total[of x] show ?thesis
      by (simp add: validate_phone_unfolded)
  qed
qed

lemma validate_name_total: "\<exists>s. validate_name name raw_text = Inr s"
  by (simp add: validate_name_def Let_def py_index_def)

lemma validate_description_total: "\<exists>s. validate_description desc raw_text = Inr s"
  by (simp add: validate_description_def Let_def py_index_def)

lemma validate_email_total: "\<exists>s. validate_email email raw_text = Inr s"
  by (simp add: validate_email_def split: option.splits)

lemma search_from_elem:
  "search_from r b s = Some m \<Longrightarrow>
   \<exists>b' s' y ys. rmatch r (b', s') = y # ys \<and> m = matched b' (fst y)"
proof (induction s arbitrary: b)
  case Nil
  show ?case
  proof (cases "rmatch r (b, [])")
    case Nil
    with \<open>search_from r b [] = Some m\<close> show ?thesis
      by (simp add: search_from.simps[of r b "[]"])
  next
    case (Cons y ys)
    with \<open>search_from r b [] = Some m\<close> have "m = matched b (fst y)"
      by (simp add: search_from.simps[of r b "[]"])
    with Cons show ?thesis by blast
  qed
next
  case (Cons c cs)
  show ?case
  proof (cases "rmatch r (b, c # cs)")
    case Nil
    with Cons.prems have "search_from r (c # b) cs = Some m"
      by (simp add: search_from.simps[of r b "c # cs"])
    then show ?thesis by (rule Cons.IH)
  next
    case (Cons y ys)
    with Cons.prems have "m = matched b (fst y)"
      by (simp add: search_from.simps[of r b "c # cs"])
    with Cons show ?thesis by blast
  qed
qed

lemma rmatch_Seq_elem:
  "y \<in> set (rmatch (Seq r1 r2) x) \<Longrightarrow> \<exists>z\<in>set (rmatch r1 x). y \<in> set (rmatch r2 z)"
  by auto

lemma email_match_has_at:
  assumes "rmatch EMAIL_REGEX (b, s) = y # ys"
  shows "CHR ''@'' \<in> set (matched b (fst y))"
proof -
  define rest where "rest = Seq (Plus (Chars is_domain_char))
     (Seq (Chr CHR ''.'') (Seq (AtLeast 2 (Chars is_tld_char)) WordB))"
  define local_part where "local_part = Plus (Chars is_local_char)"
  have "y \<in> set (rmatch (Seq WordB (Seq local_part (Seq (Chr CHR ''@'') rest))) (b, s))"
    using assms by (simp add: EMAIL_REGEX_def rest_def local_part_def)
  from rmatch_Seq_elem[OF this] obtain x1 where
    x1: "x1 \<in> set (rmatch WordB (b, s))" and
    1: "y \<in> set (rmatch (Seq local_part (Seq (Chr CHR ''@'') rest)) x1)" by blast
  from x1 have "x1 = (b, s)" by (simp split: if_splits)
  with rmatch_Seq_elem[OF 1] obtain x2 where
    x2: "x2 \<in> set (rmatch local_part (b, s))" and
    2: "y \<in> set (rmatch (Seq (Chr CHR ''@'') rest) x2)" by blast
  from rmatch_Seq_elem[OF 2] obtain x3 where
    x3: "x3 \<in> set (rmatch (Chr CHR ''@'') x2)" and
    y: "y \<in> set (rmatch rest x3)" by blast
  from consumes_pair[OF rmatch_consumes[OF x2]] obtain w2 where w2: "fst x2 = rev w2 @ b" by auto
  from x3 have "fst x3 = CHR ''@'' # fst x2"
    by (cases x2) (auto simp: Chr_def split: list.splits if_splits)
  moreover from rmatch_consumes[OF y] obtain w4 where "fst y = rev w4 @ fst x3"
    unfolding consumes_def by auto
  ultimately have "fst y = rev (w2 @ CHR ''@'' # w4) @ b" using w2 by simp
  then have "matched b (fst y) = w2 @ CHR ''@'' # w4" by (simp only: matched_append)
  then show ?thesis by simp
qed

lemma py_split_length: "c \<in> set s \<Longrightarrow> 2 \<le> length (py_split c s)"
proof (induction s)
  case Nil
  then show ?case by simp
next
  case (Cons d ds)
  have ne: "py_split c ds \<noteq> []" by (cases ds) (auto split: list.splits)
  show ?case
  proof (cases "d = c")
    case True
    with ne show ?thesis by (cases "py_split c ds") auto
  next
    case False
    with Cons have "2 \<le> length (py_split c ds)" by simp
    with False show ?thesis by (cases "py_split c ds") auto
  qed
qed

lemma validate_company_total: "\<exists>s. validate_company company raw_text = Inr s"
proof (cases "company = ''N/A''")
  case False
  then show ?thesis by (simp add: validate_company_def)
next
  case True
  show ?thesis
  proof (cases "re_search EMAIL_REGEX raw_text")
    case None
    with True show ?thesis by (simp add: validate_company_def Let_def py_index_def)
  next
    case (Some m)
    from search_from_elem[OF Some[unfolded re_search_def]] obtain b' s' y ys where
      "rmatch EMAIL_REGEX (b', s') = y # ys" "m = matched b' (fst y)" by blast
    then have "CHR ''@'' \<in> set m" using email_match_has_at by simp
    then have "1 < length (py_split CHR ''@'' m)" using py_split_length by fastforce
    with True Some show ?thesis
      by (simp add: validate_company_def py_index_def bind_err_def)
  qed
qed


section \<open>The claims about the validators\<close>

text \<open>
  Claim C7: \<open>validate_company\<close> with candidate \<open>N/A\<close> and the raw text
  \<open>contact: jane@simpel.ai\<close>, which holds an email address and no company phrase,
  returns \<open>Simpel Ai\<close>: the domain of the address with its dot replaced by a space, in
  title case.
\<close>

theorem validate_company_email_domain:
  "validate_company ''N/A'' ''contact: jane@simpel.ai'' = Inr ''Simpel Ai''"
  by code_simp

text \<open>
  Claim C8: for every candidate and every raw text, both strings, each of the five
  field validators returns a string; none of them raises.
\<close>

theorem validators_never_raise:
  "(\<exists>s. validate_name candidate raw_text = Inr s) \<and>
   (\<exists>s. validate_company candidate raw_text = Inr s) \<and>
   (\<exists>s. validate_description candidate raw_text = Inr s) \<and>
   (\<exists>s. validate_phone candidate raw_text = Inr s) \<and>
   (\<exists>s. validate_email candidate raw_text = Inr s)"
  using validate_name_total validate_company_total validate_description_total
    validate_phone_total validate_email_total by blast

text \<open>
  Claim C6: \<open>validate_phone\<close> returns \<open>+1-415-555-2671\<close> for the candidate
  \<open>+1-415-555-2671\<close>; for a candidate whose match has the twelve digits \<open>91\<close> and
  \<open>rest\<close>, it returns \<open>+91\<close> and the digits of \<open>rest\<close> in groups of two, four and four,
  separated by single spaces; and for the candidate \<open>N/A\<close> and the raw text
  \<open>+91 99090 48406\<close> it returns \<open>+91 99 0904 8406\<close>.
\<close>

theorem validate_phone_formats:
  "validate_phone ''+1-415-555-2671'' raw_text = Inr ''+1-415-555-2671'' \<and>
   (re_search PHONE_REGEX (strip_parens phone) = Some m \<and>
    digits_of m = ''91'' @ rest \<and> length rest = 10 \<longrightarrow>
      validate_phone phone raw_text =
        Inr (''+91 '' @ take 2 rest @ '' '' @ take 4 (drop 2 rest) @ '' '' @ take 4 (drop 6 rest))) \<and>
   validate_phone ''N/A'' ''+91 99090 48406'' = Inr ''+91 99 0904 8406''"
proof (intro conjI impI)
  have "re_search PHONE_REGEX (strip_parens ''+1-415-555-2671'') = Some ''+1-415-555-2671''"
    by code_simp
  moreover have "format_phone ''+1-415-555-2671'' = Inr ''+1-415-555-2671''"
    by code_simp
  ultimately show "validate_phone ''+1-415-555-2671'' raw_text = Inr ''+1-415-555-2671''"
    by (simp add: validate_phone_direct)
next
  assume a: "re_search PHONE_REGEX (strip_parens phone) = Some m \<and>
    digits_of m = ''91'' @ rest \<and> length rest = 10"
  then have "format_phone m =
      Inr (''+91 '' @ take 2 rest @ '' '' @ take 4 (drop 2 rest) @ '' '' @ drop 6 rest)"
    by (simp add: format_phone_def country_code_def startswith_def bind_err_def Let_def)
  with a show "validate_phone phone raw_text =
      Inr (''+91 '' @ take 2 rest @ '' '' @ take 4 (drop 2 rest) @ '' '' @ take 4 (drop 6 rest))"
    by (simp add: validate_phone_direct)
next
  show "validate_phone ''N/A'' ''+91 99090 48406'' = Inr ''+91 99 0904 8406''"
    by code_simp
qed

theorem validate_phone_formats_witness:
  "re_search PHONE_REGEX (strip_parens ''(+91) 99090-48406'') = Some ''+91 99090-48406'' \<and>
   digits_of ''+91 99090-48406'' = ''91'' @ ''9909048406'' \<and>
   length ''9909048406'' = 10 \<and>
   validate_phone ''(+91) 99090-48406'' ''no phone here'' = Inr ''+91 99 0904 8406''"
proof -
  have h: "re_search PHONE_REGEX (strip_parens ''(+91) 99090-48406'') = Some ''+91 99090-48406'' \<and>
    digits_of ''+91 99090-48406'' = ''91'' @ ''9909048406'' \<and> length ''9909048406'' = 10"
    by code_simp
  with validate_phone_formats[where phone = "''(+91) 99090-48406''" and m = "''+91 99090-48406''"
      and rest = "''9909048406''" and raw_text = "''no phone here''"]
  have "validate_phone ''(+91) 99090-48406'' ''no phone here'' =
      Inr (''+91 '' @ take 2 ''9909048406'' @ '' '' @ take 4 (drop 2 ''9909048406'') @ '' '' @
           take 4 (drop 6 ''9909048406''))"
    by blast
  with h show ?thesis by simp
qed

text \<open>
  Claim C10: when the candidate, its parentheses removed, has a match of \<open>PHONE_REGEX\<close>
  (the leftmost one, which \<open>search\<close> finds), the result is the formatting of that match
  whatever the raw text is, so the raw text is never searched; and when that match has
  fewer than seven digits the result is \<open>N/A\<close>. The raw text is searched only when the
  candidate has no match at all.
\<close>

theorem validate_phone_short_match:
  "re_search PHONE_REGEX (strip_parens phone) = Some m \<Longrightarrow>
     validate_phone phone raw_text = format_phone m \<and>
     validate_phone phone raw_text = validate_phone phone other_raw_text \<and>
     (length (digits_of m) < 7 \<longrightarrow> validate_phone phone raw_text = Inr ''N/A'')"
  by (simp add: validate_phone_direct format_phone_def Let_def)

theorem validate_phone_short_match_witness:
  "re_search PHONE_REGEX (strip_parens ''ext (12) 34'') = Some ''12 34'' \<and>
   length (digits_of ''12 34'') < 7 \<and>
   validate_phone ''ext (12) 34'' ''+91 99090 48406'' = Inr ''N/A'' \<and>
   validate_phone ''N/A'' ''+91 99090 48406'' = Inr ''+91 99 0904 8406''"
proof -
  have h: "re_search PHONE_REGEX (strip_parens ''ext (12) 34'') = Some ''12 34''"
    by code_simp
  have d: "length (digits_of ''12 34'') < 7" by code_simp
  from validate_phone_short_match[OF h, of "''+91 99090 48406''"] d
  have "validate_phone ''ext (12) 34'' ''+91 99090 48406'' = Inr ''N/A''" by blast
  moreover have "validate_phone ''N/A'' ''+91 99090 48406'' = Inr ''+91 99 0904 8406''"
    by code_simp
  ultimately show ?thesis using h d by simp
qed

text \<open>
  Claim C9: \<open>validate_phone\<close> returns on every pair of strings, and its recursive call
  is taken at most once: the candidate chosen from the raw text is a match of
  \<open>PHONE_REGEX\<close> with at least seven digits and is found again, whole, by the search in
  the recursive call, which therefore returns from the formatting branch. So
  \<open>validate_phone\<close> equals its own body with the recursive call replaced by that branch.
\<close>

theorem validate_phone_recursion_once:
  "validate_phone phone raw_text =
     (case re_search PHONE_REGEX (strip_parens phone) of
        Some matched_phone \<Rightarrow> format_phone matched_phone
      | None \<Rightarrow>
          (let valid = phone_candidates raw_text in
           if valid \<noteq> []
           then (case best_candidate valid of
                   Inl e \<Rightarrow> Inl e
                 | Inr phone_str \<Rightarrow> format_phone phone_str)
           else Inr ''N/A'')) \<and>
   (\<exists>s. validate_phone phone raw_text = Inr s) \<and>
   (re_search PHONE_REGEX (strip_parens phone) = None \<and>
    best_candidate (phone_candidates raw_text) = Inr chosen \<longrightarrow>
      re_search PHONE_REGEX (strip_parens chosen) = Some chosen \<and>
      7 \<le> length (digits_of chosen) \<and>
      validate_phone chosen raw_text = format_phone chosen)"
proof (intro conjI impI)
  show "validate_phone phone raw_text =
     (case re_search PHONE_REGEX (strip_parens phone) of
        Some matched_phone \<Rightarrow> format_phone matched_phone
      | None \<Rightarrow>
          (let valid = phone_candidates raw_text in
           if valid \<noteq> []
           then (case best_candidate valid of
                   Inl e \<Rightarrow> Inl e
                 | Inr phone_str \<Rightarrow> format_phone phone_str)
           else Inr ''N/A''))"
    by (rule validate_phone_unfolded)
  show "\<exists>s. validate_phone phone raw_text = Inr s" by (rule validate_phone_total)
next
  assume "re_search PHONE_REGEX (strip_parens phone) = None \<and>
    best_candidate (phone_candidates raw_text) = Inr chosen"
  then have mem: "chosen \<in> set (phone_candidates raw_text)" by (simp add: best_candidate_mem)
  show "re_search PHONE_REGEX (strip_parens chosen) = Some chosen"
    using mem by (rule phone_candidates_search(1))
  then show "validate_phone chosen raw_text = format_phone chosen"
    by (rule validate_phone_direct)
  show "7 \<le> length (digits_of chosen)" using mem by (rule phone_candidates_search(2))
qed

theorem validate_phone_recursion_once_witness:
  "re_search PHONE_REGEX (strip_parens ''N/A'') = None \<and>
   best_candidate (phone_candidates ''Tel (022) 123 / +91 99090 48406'') = Inr ''+91 99090 48406'' \<and>
   re_search PHONE_REGEX (strip_parens ''+91 99090 48406'') = Some ''+91 99090 48406'' \<and>
   validate_phone ''+91 99090 48406'' ''Tel (022) 123 / +91 99090 48406'' =
     format_phone ''+91 99090 48406''"
proof -
  have h: "re_search PHONE_REGEX (strip_parens ''N/A'') = None \<and>
    best_candidate (phone_candidates ''Tel (022) 123 / +91 99090 48406'') = Inr ''+91 99090 48406''"
    by code_simp
  with validate_phone_recursion_once[of "''N/A''" "''Tel (022) 123 / +91 99090 48406''"
      "''+91 99090 48406''"]
  have "re_search PHONE_REGEX (strip_parens ''+91 99090 48406'') = Some ''+91 99090 48406'' \<and>
    validate_phone ''+91 99090 48406'' ''Tel (022) 123 / +91 99090 48406'' =
      format_phone ''+91 99090 48406''"
    by blast
  with h show ?thesis by blast
qed


text \<open>
  With candidate \<open>N/A\<close>, \<open>validate_description\<close> returns the second of the matches that
  \<open>findall\<close> reports for the pattern of two to four capitalised words, and \<open>N/A\<close> when
  there are fewer than two. Where a comma keeps a name and a title apart, as in
  \<open>John Carter, Vice President Sales\<close>, the matches are the name and the title, and
  the title is returned.
\<close>

lemma validate_description_second_match:
  "validate_description ''N/A'' raw_text =
     Inr (if 2 \<le> length (re_findall TITLE_PATTERN raw_text)
          then re_findall TITLE_PATTERN raw_text ! 1 else ''N/A'') \<and>
   re_findall TITLE_PATTERN ''John Carter, Vice President Sales'' =
     [''John Carter'', ''Vice President Sales''] \<and>
   validate_description ''N/A'' ''John Carter, Vice President Sales'' =
     Inr ''Vice President Sales''"
proof (intro conjI)
  show "validate_description ''N/A'' raw_text =
     Inr (if 2 \<le> length (re_findall TITLE_PATTERN raw_text)
          then re_findall TITLE_PATTERN raw_text ! 1 else ''N/A'')"
    by (simp add: validate_description_def Let_def py_index_def)
  show "re_findall TITLE_PATTERN ''John Carter, Vice President Sales'' =
     [''John Carter'', ''Vice President Sales'']"
    by code_simp
  show "validate_description ''N/A'' ''John Carter, Vice President Sales'' =
     Inr ''Vice President Sales''"
    by code_simp
qed

text \<open>
  A name and a title that only one white-space character keeps apart are taken by the
  pattern as one match of four words; the last word of the title alone is no match, so
  there is no second match.
\<close>

lemma validate_description_merged_any_space:
  assumes "is_space ws"
  shows "re_findall TITLE_PATTERN (''John Carter'' @ ws # ''Vice President Sales'') =
           [''John Carter'' @ ws # ''Vice President'']"
    and "validate_description ''N/A'' (''John Carter'' @ ws # ''Vice President Sales'') =
           Inr ''N/A''"
proof -
  have "\<forall>ws\<in>set [CHR '' '', CHR 0x09, CHR 0x0A, CHR 0x0B, CHR 0x0C, CHR 0x0D,
                     CHR 0x1C, CHR 0x1D, CHR 0x1E, CHR 0x1F].
          re_findall TITLE_PATTERN (''John Carter'' @ ws # ''Vice President Sales'') =
            [''John Carter'' @ ws # ''Vice President''] \<and>
          validate_description ''N/A'' (''John Carter'' @ ws # ''Vice President Sales'') =
            Inr ''N/A''"
    by code_simp
  moreover from assms have
    "ws \<in> set [CHR '' '', CHR 0x09, CHR 0x0A, CHR 0x0B, CHR 0x0C, CHR 0x0D,
                 CHR 0x1C, CHR 0x1D, CHR 0x1E, CHR 0x1F]"
    by (simp only: is_space_def)
  ultimately have
    "re_findall TITLE_PATTERN (''John Carter'' @ ws # ''Vice President Sales'') =
       [''John Carter'' @ ws # ''Vice President''] \<and>
     validate_description ''N/A'' (''John Carter'' @ ws # ''Vice President Sales'') = Inr ''N/A''"
    by (rule bspec)
  then show "re_findall TITLE_PATTERN (''John Carter'' @ ws # ''Vice President Sales'') =
           [''John Carter'' @ ws # ''Vice President'']"
    and "validate_description ''N/A'' (''John Carter'' @ ws # ''Vice President Sales'') =
           Inr ''N/A''"
    by (rule conjunct1, rule conjunct2)
qed

text \<open>
  Claim C5 says that \<open>validate_description\<close>, with candidate \<open>N/A\<close> and a raw text that
  holds \<open>John Carter\<close> and then \<open>Vice President Sales\<close>, returns the second phrase,
  \<open>Vice President Sales\<close>. On \<open>John Carter Vice President Sales\<close>, the two phrases
  joined by one space as the text recovery joins its fragments, the code does not:
  \<open>findall\<close> reports the single match \<open>John Carter Vice President\<close>, there is no second
  candidate, and the result is \<open>N/A\<close>. The same happens across a line feed.
\<close>

theorem validate_description_merged_phrases:
  "re_findall TITLE_PATTERN ''John Carter Vice President Sales'' =
     [''John Carter Vice President''] \<and>
   validate_description ''N/A'' ''John Carter Vice President Sales'' = Inr ''N/A'' \<and>
   re_findall TITLE_PATTERN (''John Carter'' @ CHR 0x0A # ''Vice President Sales'') =
     [''John Carter'' @ CHR 0x0A # ''Vice President''] \<and>
   validate_description ''N/A'' (''John Carter'' @ CHR 0x0A # ''Vice President Sales'') =
     Inr ''N/A''"
  by code_simp

section \<open>The claims about text recovery\<close>

text \<open>
  Claim C4, as the code has it: when the primary engine finishes in time without raising,
  its joined text is returned; when it does not finish in time, the trimmed output of
  the fallback engine is returned, or the empty string if the fallback engine raises;
  an exception of the primary engine is passed on to the caller.
\<close>

theorem run_ocr_with_timeout_outcomes:
  "run_ocr_with_timeout (Detections result) tess = Inr (py_join '' '' (map fst result)) \<and>
   bot_run_ocr_with_timeout (Detections result) tess =
     Inr (py_join '' '' (map fst (filter (\<lambda>det. 0.5 < snd det) result))) \<and>
   run_ocr_with_timeout Timed_out (Inr text) = Inr (py_strip text) \<and>
   bot_run_ocr_with_timeout Timed_out (Inr text) = Inr (py_strip text) \<and>
   run_ocr_with_timeout Timed_out (Inl e) = Inr [] \<and>
   bot_run_ocr_with_timeout Timed_out (Inl e) = Inr [] \<and>
   run_ocr_with_timeout (Primary_raises e) tess = Inl e \<and>
   bot_run_ocr_with_timeout (Primary_raises e) tess = Inl e"
  by (simp add: run_ocr_with_timeout_def bot_run_ocr_with_timeout_def tesseract_fallback_def)

text \<open>
  Claim C4 as stated fails: an exception of the primary engine reaches the caller, in
  both copies of the function.
\<close>

theorem run_ocr_with_timeout_raises:
  "run_ocr_with_timeout (Primary_raises BackendError) (Inr ''Jane Doe'') = Inl BackendError \<and>
   bot_run_ocr_with_timeout (Primary_raises BackendError) (Inr ''Jane Doe'') = Inl BackendError"
  by (simp add: run_ocr_with_timeout_def bot_run_ocr_with_timeout_def)

section \<open>The claims about the structured extractor\<close>

text \<open>
  Sample inputs: a reply that is a JSON object with a key beyond the five fields, the
  value \<open>json.loads\<close> has on it (on every other text of the samples it raises), and a
  reply that is no JSON at all.
\<close>

definition example_llm :: "nat \<Rightarrow> reply" where
  \<open>example_llm attempt = Content ''{"name": "**jane doe**", "note": null}''\<close>

definition example_loads :: "string \<Rightarrow> pyval option" where
  \<open>example_loads s =
     (if s = ''{"name": "**jane doe**", "note": null}''
      then Some (PDict [(''name'', PStr ''**jane doe**''), (''note'', PNone)]) else None)\<close>


text \<open>
  Claim C3: if the input text is empty or no client is configured, \<open>extract_with_llm\<close>
  returns the record with all five fields set to \<open>N/A\<close>.
\<close>

theorem extract_with_llm_without_input:
  "text = [] \<or> \<not> client \<Longrightarrow>
   extract_with_llm json_loads client llm text raw_text max_retries =
     Inr [(''name'', PStr ''N/A''), (''company'', PStr ''N/A''),
          (''description'', PStr ''N/A''), (''phone'', PStr ''N/A''),
          (''email'', PStr ''N/A'')]"
  by (auto simp: extract_with_llm_def)

theorem extract_with_llm_without_input_witness:
  "extract_with_llm example_loads True example_llm [] (Some ''Jane Doe'') 3 =
     Inr [(''name'', PStr ''N/A''), (''company'', PStr ''N/A''),
          (''description'', PStr ''N/A''), (''phone'', PStr ''N/A''),
          (''email'', PStr ''N/A'')] \<and>
   extract_with_llm example_loads False example_llm ''Jane Doe'' None 3 =
     Inr [(''name'', PStr ''N/A''), (''company'', PStr ''N/A''),
          (''description'', PStr ''N/A''), (''phone'', PStr ''N/A''),
          (''email'', PStr ''N/A'')]"
proof -
  have 1: "([]::string) = [] \<or> \<not> True" by simp
  have 2: "''Jane Doe'' = [] \<or> \<not> False" by simp
  show ?thesis
    using extract_with_llm_without_input[OF 1] extract_with_llm_without_input[OF 2] by blast
qed


section \<open>Properties of the extractor\<close>




lemma clean_markdown_str: "\<exists>s'. clean_markdown (PStr s) = Inr (PStr s')"
  by (simp add: clean_markdown_def Let_def)






















end
